theory Spec2Isabelle
  imports Main "HOL-Library.Multiset"
begin

section \<open>Floors and containers\<close>

definition MIN_FLOOR :: int where
  "MIN_FLOOR = - 10"

definition MAX_FLOOR :: int where
  "MAX_FLOOR = 30"

text \<open>
  \<^verbatim>\<open>LinkedList\<close> (the history log) is a singly linked list whose \<^verbatim>\<open>append\<close> walks to the last
  node and whose \<^verbatim>\<open>to_list\<close> reads the nodes in order: an \<open>int list\<close> extended at the end.
\<close>

definition LinkedList_append :: "int list \<Rightarrow> int \<Rightarrow> int list" where
  "LinkedList_append h floor = h @ [floor]"

text \<open>
  \<^verbatim>\<open>Stack\<close> keeps its entries in a Python list, most recent last: \<^verbatim>\<open>push\<close> appends,
  \<^verbatim>\<open>pop\<close> returns \<^verbatim>\<open>None\<close> on an empty stack and takes the last entry otherwise.
\<close>

definition Stack_push :: "'a list \<Rightarrow> 'a \<Rightarrow> 'a list" where
  "Stack_push d x = d @ [x]"

definition Stack_pop :: "'a list \<Rightarrow> 'a option \<times> 'a list" where
  "Stack_pop d = (if d = [] then (None, d) else (Some (last d), butlast d))"

text \<open>
  \<^verbatim>\<open>RequestQueue\<close> wraps a \<^verbatim>\<open>deque\<close>: \<^verbatim>\<open>push\<close> appends on the right, \<^verbatim>\<open>pop\<close> takes from the
  left and returns \<^verbatim>\<open>None\<close> when the deque is empty.
\<close>

definition RequestQueue_push :: "int list \<Rightarrow> int \<Rightarrow> int list" where
  "RequestQueue_push q floor = q @ [floor]"

definition RequestQueue_pop :: "int list \<Rightarrow> int option \<times> int list" where
  "RequestQueue_pop q = (case q of [] \<Rightarrow> (None, q) | x # xs \<Rightarrow> (Some x, xs))"

text \<open>
  \<^verbatim>\<open>list.remove(value)\<close> deletes the first occurrence of the value and raises
  \<^verbatim>\<open>ValueError\<close> (here \<open>None\<close>) when there is none.
\<close>

definition list_remove :: "int list \<Rightarrow> int \<Rightarrow> int list option" where
  "list_remove xs v = (if v \<in> set xs then Some (remove1 v xs) else None)"

subsection \<open>The standard library's heap\<close>

text \<open>
  The priority queues keep a Python list that \<^verbatim>\<open>heapq\<close> maintains as a binary heap. The
  program reads such a list only through \<^verbatim>\<open>heap[0]\<close> (the smallest entry), its length,
  \<^verbatim>\<open>heappop\<close> (which takes the smallest entry out), \<^verbatim>\<open>remove\<close> followed by \<^verbatim>\<open>heapify\<close>, and
  \<^verbatim>\<open>sorted(to_list())\<close> in the status printout; each of these depends on the entries held, not
  on where the heap stores them. The heap is therefore modelled by its entries in ascending
  order, which is itself a valid heap layout: \<^verbatim>\<open>heappush\<close> inserts in order, \<^verbatim>\<open>heappop\<close>
  takes the head, \<^verbatim>\<open>heapify\<close> re-establishes the order. The positions \<^verbatim>\<open>heapq\<close> gives the
  entries inside its array are not modelled.
\<close>

definition heappush :: "int list \<Rightarrow> int \<Rightarrow> int list" where
  "heappush heap x = insort x heap"

definition heappop :: "int list \<Rightarrow> int \<times> int list" where
  "heappop heap = (hd heap, tl heap)"

definition heapify :: "int list \<Rightarrow> int list" where
  "heapify heap = sort heap"

text \<open>\<^verbatim>\<open>UpPQ\<close>: a min-heap of floors, the lowest floor on top.\<close>

definition UpPQ_push :: "int list \<Rightarrow> int \<Rightarrow> int list" where
  "UpPQ_push heap floor = heappush heap floor"

definition UpPQ_empty :: "int list \<Rightarrow> bool" where
  "UpPQ_empty heap = (length heap = 0)"

definition UpPQ_pop :: "int list \<Rightarrow> int option \<times> int list" where
  "UpPQ_pop heap =
     (if heap \<noteq> [] then (Some (fst (heappop heap)), snd (heappop heap)) else (None, heap))"

definition UpPQ_peek :: "int list \<Rightarrow> int option" where
  "UpPQ_peek heap = (if heap \<noteq> [] then Some (hd heap) else None)"

text \<open>\<^verbatim>\<open>DownPQ\<close>: a max-heap of floors, stored as a min-heap of the negated floors.\<close>

definition DownPQ_push :: "int list \<Rightarrow> int \<Rightarrow> int list" where
  "DownPQ_push heap floor = heappush heap (- floor)"

definition DownPQ_empty :: "int list \<Rightarrow> bool" where
  "DownPQ_empty heap = (length heap = 0)"

definition DownPQ_pop :: "int list \<Rightarrow> int option \<times> int list" where
  "DownPQ_pop heap =
     (if heap \<noteq> [] then (Some (- fst (heappop heap)), snd (heappop heap)) else (None, heap))"

definition DownPQ_peek :: "int list \<Rightarrow> int option" where
  "DownPQ_peek heap = (if heap \<noteq> [] then Some (- hd heap) else None)"

definition DownPQ_to_list :: "int list \<Rightarrow> int list" where
  "DownPQ_to_list heap = map uminus heap"

section \<open>The elevator\<close>

datatype direction = Up | Down | Idle

record elevator =
  name :: string
  current :: int
  direction :: direction
  up :: "int list"
  down :: "int list"
  history :: "int list"

definition Elevator :: "string \<Rightarrow> elevator" where
  "Elevator n = \<lparr>name = n, current = 0, direction = Idle, up = [], down = [], history = []\<rparr>"

definition add_request :: "int \<Rightarrow> elevator \<Rightarrow> elevator" where
  "add_request floor e =
     (if floor = current e then e\<lparr>history := LinkedList_append (history e) floor\<rparr>
      else if floor > current e then e\<lparr>up := UpPQ_push (up e) floor\<rparr>
      else e\<lparr>down := DownPQ_push (down e) floor\<rparr>)"

definition has_pending :: "elevator \<Rightarrow> bool" where
  "has_pending e = ((\<not> UpPQ_empty (up e)) \<or> (\<not> DownPQ_empty (down e)))"

text \<open>
  \<^verbatim>\<open>move_to_next\<close> has three parts. The first chooses a direction for an idle car, and
  returns \<^verbatim>\<open>None\<close> from the whole call (here \<open>None\<close>) when both queues are empty.
\<close>

definition choose_direction :: "elevator \<Rightarrow> elevator option" where
  "choose_direction e =
     (if direction e = Idle then
        (case (UpPQ_peek (up e), DownPQ_peek (down e)) of
           (Some up_p, Some down_p) \<Rightarrow>
             if \<bar>up_p - current e\<bar> \<le> \<bar>down_p - current e\<bar>
             then Some (e\<lparr>direction := Up\<rparr>)
             else Some (e\<lparr>direction := Down\<rparr>)
         | (Some up_p, None) \<Rightarrow> Some (e\<lparr>direction := Up\<rparr>)
         | (None, Some down_p) \<Rightarrow> Some (e\<lparr>direction := Down\<rparr>)
         | (None, None) \<Rightarrow> None)
      else Some e)"

text \<open>The block under \<^verbatim>\<open>if self.direction == 'up'\<close>: the served floor, and the car after it.\<close>

definition serve_up :: "elevator \<Rightarrow> int option \<times> elevator" where
  "serve_up e =
     (if \<not> UpPQ_empty (up e) then
        (let target = the (fst (UpPQ_pop (up e)));
             e1 = e\<lparr>up := snd (UpPQ_pop (up e)), current := target,
                    history := LinkedList_append (history e) target\<rparr>;
             e2 = (if UpPQ_empty (up e1) \<and> \<not> DownPQ_empty (down e1) then e1\<lparr>direction := Down\<rparr>
                   else if UpPQ_empty (up e1) then e1\<lparr>direction := Idle\<rparr>
                   else e1)
         in (Some target, e2))
      else if \<not> DownPQ_empty (down e) then
        (let e0 = e\<lparr>direction := Down\<rparr>;
             target = the (fst (DownPQ_pop (down e0)));
             e1 = e0\<lparr>down := snd (DownPQ_pop (down e0)), current := target,
                     history := LinkedList_append (history e0) target\<rparr>;
             e2 = (if \<not> DownPQ_empty (down e1) then e1\<lparr>direction := Down\<rparr>
                   else if \<not> UpPQ_empty (up e1) then e1\<lparr>direction := Up\<rparr>
                   else e1\<lparr>direction := Idle\<rparr>)
         in (Some target, e2))
      else (None, e\<lparr>direction := Idle\<rparr>))"

text \<open>The block under \<^verbatim>\<open>if self.direction == 'down'\<close>.\<close>

definition serve_down :: "elevator \<Rightarrow> int option \<times> elevator" where
  "serve_down e =
     (if \<not> DownPQ_empty (down e) then
        (let target = the (fst (DownPQ_pop (down e)));
             e1 = e\<lparr>down := snd (DownPQ_pop (down e)), current := target,
                    history := LinkedList_append (history e) target\<rparr>;
             e2 = (if DownPQ_empty (down e1) \<and> \<not> UpPQ_empty (up e1) then e1\<lparr>direction := Up\<rparr>
                   else if DownPQ_empty (down e1) then e1\<lparr>direction := Idle\<rparr>
                   else e1)
         in (Some target, e2))
      else if \<not> UpPQ_empty (up e) then
        (let e0 = e\<lparr>direction := Up\<rparr>;
             target = the (fst (UpPQ_pop (up e0)));
             e1 = e0\<lparr>up := snd (UpPQ_pop (up e0)), current := target,
                     history := LinkedList_append (history e0) target\<rparr>;
             e2 = (if \<not> UpPQ_empty (up e1) then e1\<lparr>direction := Up\<rparr>
                   else if \<not> DownPQ_empty (down e1) then e1\<lparr>direction := Down\<rparr>
                   else e1\<lparr>direction := Idle\<rparr>)
         in (Some target, e2))
      else (None, e\<lparr>direction := Idle\<rparr>))"

definition move_to_next :: "elevator \<Rightarrow> int option \<times> elevator" where
  "move_to_next e =
     (case choose_direction e of
        None \<Rightarrow> (None, e)
      | Some e' \<Rightarrow>
          if direction e' = Up then serve_up e'
          else if direction e' = Down then serve_down e'
          else (None, e'))"

section \<open>Assignment of a request to an elevator\<close>

definition suitable :: "int \<Rightarrow> elevator \<Rightarrow> bool" where
  "suitable floor elev =
     (if direction elev = Idle then True
      else if direction elev = Up \<and> floor \<ge> current elev then True
      else if direction elev = Down \<and> floor \<le> current elev then True
      else False)"

text \<open>
  The function returns one of the two elevator objects of the array; the model returns its
  index, \<open>0\<close> for \<^verbatim>\<open>A\<close> and \<open>1\<close> for \<^verbatim>\<open>B\<close>.
\<close>

definition assign_request_to_elevator :: "int \<Rightarrow> elevator list \<Rightarrow> nat" where
  "assign_request_to_elevator floor elevators =
     (let A = elevators ! 0; B = elevators ! 1;
          A_s = suitable floor A; B_s = suitable floor B
      in if A_s \<and> \<not> B_s then 0
         else if B_s \<and> \<not> A_s then 1
         else if direction A = Idle \<and> direction B \<noteq> Idle then 0
         else if direction B = Idle \<and> direction A \<noteq> Idle then 1
         else if \<bar>current A - floor\<bar> \<le> \<bar>current B - floor\<bar> then 0
         else 1)"

section \<open>The simulator\<close>

record sim =
  elevators :: "elevator list"
  req_q :: "int list"
  undo_stack :: "(string \<times> int) list"

definition init :: sim where
  "init = \<lparr>elevators = [Elevator ''A'', Elevator ''B''], req_q = [], undo_stack = []\<rparr>"

text \<open>What a command reports (the lines it prints, without their wording).\<close>

datatype report =
    RangeError
  | Requested int
  | Assigned int string int
  | NothingToUndo
  | UndoRemoved int
  | UndoNotFound int
  | UnknownUndoType
  | Served string int
  | NoPending
  | StoppingAuto
  | AutoFinished

text \<open>The command \<^verbatim>\<open>request <floor>\<close>, from the bounds check on.\<close>

definition request :: "int \<Rightarrow> sim \<Rightarrow> report list \<times> sim" where
  "request floor s =
     (if floor < MIN_FLOOR \<or> floor > MAX_FLOOR then ([RangeError], s)
      else
        (let s1 = s\<lparr>req_q := RequestQueue_push (req_q s) floor,
                    undo_stack := Stack_push (undo_stack s) (''request'', floor)\<rparr>;
             s2 = s1\<lparr>req_q := snd (RequestQueue_pop (req_q s1))\<rparr>
         in case fst (RequestQueue_pop (req_q s1)) of
              None \<Rightarrow> ([Requested floor], s2)
            | Some next_req \<Rightarrow>
                (let i = assign_request_to_elevator next_req (elevators s2);
                     assigned = add_request next_req (elevators s2 ! i)
                 in ([Requested floor, Assigned next_req (name assigned) (current assigned)],
                     s2\<lparr>elevators := (elevators s2)[i := assigned]\<rparr>))))"

text \<open>
  The command \<^verbatim>\<open>undo\<close>. The body of its loop over the elevators tries the up heap and then the
  down heap (in negated form) of one elevator; the flag says whether either removal succeeded.
\<close>

definition undo_elevator :: "int \<Rightarrow> elevator \<Rightarrow> elevator \<times> bool" where
  "undo_elevator v e =
     (let (e1, r1) = (case list_remove (up e) v of
                        Some h \<Rightarrow> (e\<lparr>up := heapify h\<rparr>, True)
                      | None \<Rightarrow> (e, False));
          (e2, r2) = (case list_remove (down e1) (- v) of
                        Some h \<Rightarrow> (e1\<lparr>down := heapify h\<rparr>, True)
                      | None \<Rightarrow> (e1, False))
      in (e2, r1 \<or> r2))"

definition undo :: "sim \<Rightarrow> report list \<times> sim" where
  "undo s =
     (case Stack_pop (undo_stack s) of
        (None, _) \<Rightarrow> ([NothingToUndo], s)
      | (Some (typ, v), rest) \<Rightarrow>
          if typ = ''request'' then
            (let (q, r0) = (case list_remove (req_q s) v of
                              Some q' \<Rightarrow> (q', True)
                            | None \<Rightarrow> (req_q s, False));
                 es = map (undo_elevator v) (elevators s);
                 removed = (r0 \<or> list_ex snd es)
             in ([if removed then UndoRemoved v else UndoNotFound v],
                 s\<lparr>elevators := map fst es, req_q := q, undo_stack := rest\<rparr>))
          else ([UnknownUndoType], s\<lparr>undo_stack := rest\<rparr>))"

text \<open>The command \<^verbatim>\<open>step\<close>: every elevator serves its next target, in array order.\<close>

definition served_report :: "int option \<times> elevator \<Rightarrow> report list" where
  "served_report r = (case fst r of None \<Rightarrow> [] | Some served \<Rightarrow> [Served (name (snd r)) served])"

definition step :: "sim \<Rightarrow> report list \<times> sim" where
  "step s =
     (let rs = map move_to_next (elevators s);
          out = concat (map served_report rs)
      in (if out = [] then [NoPending] else out, s\<lparr>elevators := map snd rs\<rparr>))"

text \<open>
  The command \<^verbatim>\<open>auto\<close>. The loop counts its rounds in \<^verbatim>\<open>steps\<close> and leaves either when no
  elevator has a pending target or, after a round, when \<^verbatim>\<open>steps > 1000\<close>. The result of the
  loop is the number of rounds, whether the safety stop was taken, and the state. Of the lines
  the command prints, the one for the safety stop and the closing one are kept; the line for
  each floor served inside the loop is left out.
\<close>

function auto_loop :: "sim \<Rightarrow> nat \<Rightarrow> nat \<times> bool \<times> sim" where
  "auto_loop s steps =
     (if \<not> list_ex has_pending (elevators s) then (steps, False, s)
      else
        (let s' = s\<lparr>elevators := map (snd \<circ> move_to_next) (elevators s)\<rparr>;
             steps' = steps + 1
         in if steps' > 1000 then (steps', True, s') else auto_loop s' steps'))"
  by pat_completeness auto
termination
  by (relation "measure (\<lambda>(s, steps). 1001 - steps)") auto

definition auto :: "sim \<Rightarrow> report list \<times> nat \<times> sim" where
  "auto s =
     (case auto_loop s 0 of
        (steps, stopped, s') \<Rightarrow>
          ((if stopped then [StoppingAuto] else []) @ [AutoFinished], steps, s'))"

text \<open>
  The command loop of \<^verbatim>\<open>run_interactive\<close>, for the commands that change the state: each
  command is carried out on the state the previous one left.
\<close>

datatype command = Request int | Undo | Step | Auto

definition exec :: "command \<Rightarrow> sim \<Rightarrow> sim" where
  "exec c s =
     (case c of
        Request floor \<Rightarrow> snd (request floor s)
      | Undo \<Rightarrow> snd (undo s)
      | Step \<Rightarrow> snd (step s)
      | Auto \<Rightarrow> snd (snd (auto s)))"

definition run :: "command list \<Rightarrow> sim \<Rightarrow> sim" where
  "run cs s = fold exec cs s"

section \<open>Notions used in the properties\<close>

text \<open>
  The selection rule of the dispatcher as the specification words it: the one suitable car
  if exactly one is suitable; else the one idle car if exactly one is idle; else the car
  nearer to the floor, the first car on a tie.
\<close>

definition suitable_spec :: "int \<Rightarrow> elevator \<Rightarrow> bool" where
  "suitable_spec floor c =
     (direction c = Idle \<or> (direction c = Up \<and> floor \<ge> current c)
      \<or> (direction c = Down \<and> floor \<le> current c))"

definition select_spec :: "int \<Rightarrow> elevator \<Rightarrow> elevator \<Rightarrow> nat" where
  "select_spec floor a b =
     (if suitable_spec floor a \<noteq> suitable_spec floor b
      then (if suitable_spec floor a then 0 else 1)
      else if (direction a = Idle) \<noteq> (direction b = Idle)
      then (if direction a = Idle then 0 else 1)
      else if \<bar>current b - floor\<bar> < \<bar>current a - floor\<bar> then 1 else 0)"

text \<open>A floor is in range when it lies between the two bounds.\<close>

definition in_range :: "int \<Rightarrow> bool" where
  "in_range f = (MIN_FLOOR \<le> f \<and> f \<le> MAX_FLOOR)"

definition elevator_in_range :: "elevator \<Rightarrow> bool" where
  "elevator_in_range e =
     (in_range (current e) \<and> list_all in_range (up e)
      \<and> list_all in_range (DownPQ_to_list (down e)) \<and> list_all in_range (history e))"

definition floors_in_range :: "sim \<Rightarrow> bool" where
  "floors_in_range s =
     (list_all elevator_in_range (elevators s) \<and> list_all in_range (req_q s)
      \<and> list_all (\<lambda>(typ, v). in_range v) (undo_stack s))"


text \<open>The number of targets an elevator still has to serve, and the largest such number.\<close>

definition pending_count :: "elevator \<Rightarrow> nat" where
  "pending_count e = length (up e) + length (down e)"

definition max_pending :: "sim \<Rightarrow> nat" where
  "max_pending s = foldr max (map pending_count (elevators s)) 0"

text \<open>
  The state after \<open>k\<close> requests for floor 5 from the start: both elevators are idle at floor
  0 with equal distances, so the first one is assigned every request.
\<close>

definition crowded :: "nat \<Rightarrow> sim" where
  "crowded k =
     \<lparr>elevators = [(Elevator ''A'')\<lparr>up := replicate k 5\<rparr>, Elevator ''B''], req_q = [],
      undo_stack = replicate k (''request'', 5)\<rparr>"


text \<open>
  What can happen to one elevator between two of its services: a request is added, an undo
  takes a floor out of its queues, or it serves its next target.
\<close>

datatype car_op = AddRequest int | UndoRemove int | ServeNext

fun car_step :: "car_op \<Rightarrow> elevator \<Rightarrow> elevator" where
  "car_step (AddRequest f) e = add_request f e"
| "car_step (UndoRemove v) e = fst (undo_elevator v e)"
| "car_step ServeNext e = snd (move_to_next e)"

text \<open>The direction is \<open>d\<close> whenever the elevator is about to serve, throughout the operations.\<close>

fun stays :: "direction \<Rightarrow> elevator \<Rightarrow> car_op list \<Rightarrow> bool" where
  "stays d e [] = True"
| "stays d e (ServeNext # ops) = (direction e = d \<and> stays d (snd (move_to_next e)) ops)"
| "stays d e (opn # ops) = stays d (car_step opn e) ops"

text \<open>The floors served out of the up queue, and out of the down queue, in the order served.\<close>

fun served_from_up :: "elevator \<Rightarrow> car_op list \<Rightarrow> int list" where
  "served_from_up e [] = []"
| "served_from_up e (ServeNext # ops) =
     (if direction e = Up \<and> \<not> UpPQ_empty (up e)
      then the (fst (move_to_next e)) # served_from_up (snd (move_to_next e)) ops
      else served_from_up (snd (move_to_next e)) ops)"
| "served_from_up e (opn # ops) = served_from_up (car_step opn e) ops"

fun served_from_down :: "elevator \<Rightarrow> car_op list \<Rightarrow> int list" where
  "served_from_down e [] = []"
| "served_from_down e (ServeNext # ops) =
     (if direction e = Down \<and> \<not> DownPQ_empty (down e)
      then the (fst (move_to_next e)) # served_from_down (snd (move_to_next e)) ops
      else served_from_down (snd (move_to_next e)) ops)"
| "served_from_down e (opn # ops) = served_from_down (car_step opn e) ops"

section \<open>Basic facts\<close>

declare auto_loop.simps [simp del]

lemmas pq_defs = UpPQ_push_def UpPQ_empty_def UpPQ_pop_def UpPQ_peek_def
  DownPQ_push_def DownPQ_empty_def DownPQ_pop_def DownPQ_peek_def
  heappush_def heappop_def LinkedList_append_def

lemmas move_defs = move_to_next_def choose_direction_def serve_up_def serve_down_def Let_def

lemmas eval_defs = run_def exec_def request_def undo_def step_def auto_def init_def Elevator_def
  add_request_def assign_request_to_elevator_def suitable_def undo_elevator_def list_remove_def
  heapify_def served_report_def move_defs pq_defs RequestQueue_push_def RequestQueue_pop_def
  Stack_push_def Stack_pop_def MIN_FLOOR_def MAX_FLOOR_def

lemma move_to_next_idle_iff:
  "direction (snd (move_to_next e)) = Idle \<longleftrightarrow>
     UpPQ_empty (up (snd (move_to_next e))) \<and> DownPQ_empty (down (snd (move_to_next e)))"
  by (cases "direction e"; cases "up e"; cases "down e")
     (simp_all add: move_defs pq_defs)

subsection \<open>The rounds of the auto loop\<close>

lemma pending_count_move:
  "pending_count (snd (move_to_next e)) = pending_count e - 1"
  by (cases "direction e"; cases "up e"; cases "down e")
     (simp_all add: move_defs pq_defs pending_count_def)

lemma foldr_max_pred:
  "foldr max (map (\<lambda>x. f x - 1) xs) (0::nat) = foldr max (map f xs) 0 - 1"
  by (induction xs) (simp_all add: max_def)

lemma max_pending_round:
  "max_pending (s\<lparr>elevators := map (snd \<circ> move_to_next) (elevators s)\<rparr>) = max_pending s - 1"
  using foldr_max_pred[of pending_count "elevators s"]
  by (simp add: max_pending_def pending_count_move comp_def)

lemma foldr_max_zero: "foldr max xs (0::nat) = 0 \<longleftrightarrow> (\<forall>x \<in> set xs. x = 0)"
  by (induction xs) (auto simp: max_def)

lemma has_pending_max: "list_ex has_pending (elevators s) \<longleftrightarrow> 0 < max_pending s"
proof -
  have "max_pending s = 0 \<longleftrightarrow> \<not> list_ex has_pending (elevators s)"
    by (auto simp: max_pending_def foldr_max_zero list_ex_iff has_pending_def pending_count_def pq_defs)
  then show ?thesis by auto
qed

lemma auto_loop_idle:
  "\<not> list_ex has_pending (elevators s) \<Longrightarrow> auto_loop s steps = (steps, False, s)"
  by (subst auto_loop.simps) simp

lemma auto_loop_last:
  "list_ex has_pending (elevators s) \<Longrightarrow> steps + 1 > 1000 \<Longrightarrow>
     auto_loop s steps =
       (steps + 1, True, s\<lparr>elevators := map (snd \<circ> move_to_next) (elevators s)\<rparr>)"
  by (subst auto_loop.simps) (simp add: Let_def)

lemma auto_loop_again:
  "list_ex has_pending (elevators s) \<Longrightarrow> \<not> steps + 1 > 1000 \<Longrightarrow>
     auto_loop s steps =
       auto_loop (s\<lparr>elevators := map (snd \<circ> move_to_next) (elevators s)\<rparr>) (steps + 1)"
  by (subst auto_loop.simps) (simp add: Let_def)

lemma auto_loop_rounds:
  "steps \<le> 1000 \<Longrightarrow> fst (auto_loop s steps) = min (steps + max_pending s) 1001"
proof (induction s steps rule: auto_loop.induct)
  case (1 s steps)
  let ?s' = "s\<lparr>elevators := map (snd \<circ> move_to_next) (elevators s)\<rparr>"
  show ?case
  proof (cases "list_ex has_pending (elevators s)")
    case False
    then show ?thesis using "1.prems" has_pending_max[of s] by (simp add: auto_loop_idle)
  next
    case True
    have mp: "max_pending ?s' = max_pending s - 1" by (rule max_pending_round)
    have pos: "0 < max_pending s" using True has_pending_max by simp
    show ?thesis
    proof (cases "steps + 1 > 1000")
      case True
      then show ?thesis using \<open>list_ex has_pending (elevators s)\<close> pos "1.prems"
        by (simp add: auto_loop_last)
    next
      case False
      then have "fst (auto_loop ?s' (steps + 1)) = min (steps + 1 + max_pending ?s') 1001"
        using "1.IH"[of ?s' "steps + 1"] True by simp
      then show ?thesis using True False pos mp by (simp add: auto_loop_again)
    qed
  qed
qed

lemma auto_loop_stopped:
  "steps \<le> 1000 \<Longrightarrow> fst (snd (auto_loop s steps)) \<longleftrightarrow> fst (auto_loop s steps) = 1001"
proof (induction s steps rule: auto_loop.induct)
  case (1 s steps)
  let ?s' = "s\<lparr>elevators := map (snd \<circ> move_to_next) (elevators s)\<rparr>"
  show ?case
  proof (cases "list_ex has_pending (elevators s)")
    case False
    then show ?thesis using "1.prems" by (simp add: auto_loop_idle)
  next
    case True
    show ?thesis
    proof (cases "steps + 1 > 1000")
      case True
      then show ?thesis using \<open>list_ex has_pending (elevators s)\<close> "1.prems"
        by (simp add: auto_loop_last)
    next
      case False
      then show ?thesis using "1.IH"[of ?s' "steps + 1"] True by (simp add: auto_loop_again)
    qed
  qed
qed

lemma auto_loop_done:
  "\<not> fst (snd (auto_loop s steps)) \<Longrightarrow>
     \<not> list_ex has_pending (elevators (snd (snd (auto_loop s steps))))"
proof (induction s steps rule: auto_loop.induct)
  case (1 s steps)
  let ?s' = "s\<lparr>elevators := map (snd \<circ> move_to_next) (elevators s)\<rparr>"
  show ?case
  proof (cases "list_ex has_pending (elevators s)")
    case False
    then show ?thesis by (simp add: auto_loop_idle)
  next
    case True
    show ?thesis
    proof (cases "steps + 1 > 1000")
      case True
      then show ?thesis using \<open>list_ex has_pending (elevators s)\<close> "1.prems"
        by (simp add: auto_loop_last)
    next
      case False
      then show ?thesis using "1.IH"[of ?s' "steps + 1"] "1.prems" True
        by (simp add: auto_loop_again)
    qed
  qed
qed

lemma auto_rounds: "fst (snd (auto s)) = fst (auto_loop s 0)"
  by (cases "auto_loop s 0") (simp add: auto_def)

lemma auto_report: "fst (auto s) = (if fst (snd (auto_loop s 0)) then [StoppingAuto] else []) @ [AutoFinished]"
  by (cases "auto_loop s 0") (simp add: auto_def)

lemma auto_state: "snd (snd (auto s)) = snd (snd (auto_loop s 0))"
  by (cases "auto_loop s 0") (simp add: auto_def)

subsection \<open>Properties kept by every command\<close>

lemma auto_loop_preserves:
  assumes round: "\<And>s. P s \<Longrightarrow> P (s\<lparr>elevators := map (snd \<circ> move_to_next) (elevators s)\<rparr>)"
  shows "P s \<Longrightarrow> P (snd (snd (auto_loop s steps)))"
proof (induction s steps rule: auto_loop.induct)
  case (1 s steps)
  let ?s' = "s\<lparr>elevators := map (snd \<circ> move_to_next) (elevators s)\<rparr>"
  show ?case
  proof (cases "list_ex has_pending (elevators s)")
    case False
    then show ?thesis using "1.prems" by (simp add: auto_loop_idle)
  next
    case True
    show ?thesis
    proof (cases "steps + 1 > 1000")
      case True
      then show ?thesis using \<open>list_ex has_pending (elevators s)\<close> "1.prems" round
        by (simp add: auto_loop_last)
    next
      case False
      then show ?thesis using "1.IH"[of ?s' "steps + 1"] "1.prems" True round
        by (simp add: auto_loop_again)
    qed
  qed
qed

lemma exec_Auto_preserves:
  assumes "\<And>s. P s \<Longrightarrow> P (s\<lparr>elevators := map (snd \<circ> move_to_next) (elevators s)\<rparr>)"
  shows "P s \<Longrightarrow> P (exec Auto s)"
  using auto_loop_preserves[of P s 0, OF assms]
  by (cases "auto_loop s 0") (simp add: exec_def auto_def)

lemma exec_Step: "exec Step s = s\<lparr>elevators := map (snd \<circ> move_to_next) (elevators s)\<rparr>"
  by (simp add: exec_def step_def Let_def comp_def)

lemma run_snoc: "run (cs @ [c]) s = exec c (run cs s)"
  by (simp add: run_def)

subsection \<open>Floors stay in range\<close>

lemma in_range_add_request:
  "in_range f \<Longrightarrow> elevator_in_range e \<Longrightarrow> elevator_in_range (add_request f e)"
  by (auto simp: elevator_in_range_def add_request_def pq_defs DownPQ_to_list_def list_all_iff
      set_insort_key)

lemma in_range_undo_elevator:
  "elevator_in_range e \<Longrightarrow> elevator_in_range (fst (undo_elevator v e))"
  by (auto simp: elevator_in_range_def undo_elevator_def list_remove_def heapify_def
      DownPQ_to_list_def list_all_iff Let_def split: if_splits dest: notin_set_remove1)

lemma in_range_move:
  "elevator_in_range e \<Longrightarrow> elevator_in_range (snd (move_to_next e))"
  by (cases "direction e"; cases "up e"; cases "down e")
     (simp_all add: move_defs pq_defs elevator_in_range_def DownPQ_to_list_def)

lemma in_range_round:
  "floors_in_range s \<Longrightarrow>
     floors_in_range (s\<lparr>elevators := map (snd \<circ> move_to_next) (elevators s)\<rparr>)"
  by (auto simp: floors_in_range_def list_all_iff in_range_move)

lemma in_range_dispatch:
  assumes "list_all elevator_in_range es" and "in_range f"
  shows "list_all elevator_in_range (es[i := add_request f (es ! i)])"
proof (cases "i < length es")
  case True
  then have "elevator_in_range (add_request f (es ! i))"
    using assms by (simp add: list_all_length in_range_add_request)
  then show ?thesis
    using assms(1) set_update_subset_insert[of es i "add_request f (es ! i)"]
    by (auto simp: list_all_iff)
next
  case False
  then show ?thesis using assms(1) by (simp add: list_update_beyond)
qed

lemma in_range_request:
  assumes "floors_in_range s"
  shows "floors_in_range (exec (Request f) s)"
proof (cases "f < MIN_FLOOR \<or> f > MAX_FLOOR")
  case True
  then show ?thesis using assms by (simp add: exec_def request_def)
next
  case False
  then have f: "in_range f" by (simp add: in_range_def)
  show ?thesis
  proof (cases "req_q s")
    case Nil
    then show ?thesis using assms f False in_range_dispatch[of "elevators s" f]
      by (simp add: exec_def request_def RequestQueue_push_def RequestQueue_pop_def Stack_push_def
          Let_def floors_in_range_def)
  next
    case (Cons x xs)
    then have "in_range x" using assms by (simp add: floors_in_range_def)
    then show ?thesis using assms f False Cons in_range_dispatch[of "elevators s" x]
      by (simp add: exec_def request_def RequestQueue_push_def RequestQueue_pop_def Stack_push_def
          Let_def floors_in_range_def)
  qed
qed

lemma in_range_undo:
  assumes "floors_in_range s"
  shows "floors_in_range (exec Undo s)"
proof (cases "undo_stack s = []")
  case True
  then show ?thesis using assms by (simp add: exec_def undo_def Stack_pop_def)
next
  case False
  obtain ty v where l: "last (undo_stack s) = (ty, v)" by (cases "last (undo_stack s)") auto
  have st: "list_all (\<lambda>(typ, v). in_range v) (butlast (undo_stack s))"
    using assms by (auto simp: floors_in_range_def list_all_iff dest: in_set_butlastD)
  have es: "list_all elevator_in_range (map fst (map (undo_elevator v) (elevators s)))"
    using assms by (auto simp: floors_in_range_def list_all_iff in_range_undo_elevator)
  have q: "list_all in_range (case list_remove (req_q s) v of Some q' \<Rightarrow> q' | None \<Rightarrow> req_q s)"
    using assms by (auto simp: floors_in_range_def list_all_iff list_remove_def dest: notin_set_remove1)
  show ?thesis using False l st es q assms
    by (auto simp: exec_def undo_def Stack_pop_def floors_in_range_def Let_def
        split: option.splits)
qed

lemma in_range_exec:
  assumes "floors_in_range s"
  shows "floors_in_range (exec c s)"
proof (cases c)
  case (Request f) then show ?thesis using in_range_request assms by simp
next
  case Undo then show ?thesis using in_range_undo assms by simp
next
  case Step then show ?thesis using in_range_round assms by (simp add: exec_Step)
next
  case Auto
  then show ?thesis using exec_Auto_preserves[of floors_in_range s] in_range_round assms by simp
qed

lemma in_range_init: "floors_in_range init"
  by (simp add: floors_in_range_def init_def Elevator_def elevator_in_range_def in_range_def
      MIN_FLOOR_def MAX_FLOOR_def DownPQ_to_list_def)

subsection \<open>Heaps stay in order\<close>

lemma wf_add_request:
  "sorted (up e) \<and> sorted (down e) \<Longrightarrow>
     sorted (up (add_request f e)) \<and> sorted (down (add_request f e))"
  by (simp add: add_request_def pq_defs sorted_insort)













subsection \<open>One elevator between services\<close>

lemma direction_add_request [simp]: "direction (add_request f e) = direction e"
  by (simp add: add_request_def)

lemma direction_undo_elevator [simp]: "direction (fst (undo_elevator v e)) = direction e"
  by (simp add: undo_elevator_def list_remove_def)

lemma current_undo_elevator [simp]: "current (fst (undo_elevator v e)) = current e"
  by (simp add: undo_elevator_def list_remove_def)

lemma set_up_undo_elevator: "set (up (fst (undo_elevator v e))) \<subseteq> set (up e)"
  using set_remove1_subset[of v "up e"]
  by (auto simp: undo_elevator_def list_remove_def heapify_def)

lemma set_down_undo_elevator: "set (down (fst (undo_elevator v e))) \<subseteq> set (down e)"
  using set_remove1_subset[of "- v" "down e"]
  by (auto simp: undo_elevator_def list_remove_def heapify_def)

lemma move_up_pop:
  "direction e = Up \<Longrightarrow> up e = x # xs \<Longrightarrow>
     fst (move_to_next e) = Some x \<and> up (snd (move_to_next e)) = xs \<and>
     current (snd (move_to_next e)) = x"
  by (simp add: move_defs pq_defs)

lemma move_up_empty:
  "direction e = Up \<Longrightarrow> up e = [] \<Longrightarrow> direction (snd (move_to_next e)) \<noteq> Up"
  by (cases "down e") (simp_all add: move_defs pq_defs)

lemma move_down_pop:
  "direction e = Down \<Longrightarrow> down e = x # xs \<Longrightarrow>
     fst (move_to_next e) = Some (- x) \<and> down (snd (move_to_next e)) = xs \<and>
     current (snd (move_to_next e)) = - x"
  by (simp add: move_defs pq_defs)

lemma move_down_empty:
  "direction e = Down \<Longrightarrow> down e = [] \<Longrightarrow> direction (snd (move_to_next e)) \<noteq> Down"
  by (cases "up e") (simp_all add: move_defs pq_defs)

lemma no_serve_from_up:
  "direction e \<noteq> Up \<Longrightarrow> stays Up e ops \<Longrightarrow> served_from_up e ops = []"
proof (induction ops arbitrary: e)
  case Nil then show ?case by simp
next
  case (Cons a ops) then show ?case by (cases a) simp_all
qed

lemma no_serve_from_down:
  "direction e \<noteq> Down \<Longrightarrow> stays Down e ops \<Longrightarrow> served_from_down e ops = []"
proof (induction ops arbitrary: e)
  case Nil then show ?case by simp
next
  case (Cons a ops) then show ?case by (cases a) simp_all
qed

lemma served_up_bounded:
  "sorted (up e) \<Longrightarrow> \<forall>x\<in>set (up e). lb \<le> x \<Longrightarrow> lb \<le> current e \<Longrightarrow> stays Up e ops \<Longrightarrow>
     sorted (served_from_up e ops) \<and> (\<forall>y\<in>set (served_from_up e ops). lb \<le> y)"
proof (induction ops arbitrary: e lb)
  case Nil
  then show ?case by simp
next
  case (Cons a ops)
  show ?case
  proof (cases a)
    case (AddRequest f)
    have "sorted (up (add_request f e))" using Cons.prems(1) wf_add_request[of e f]
      by (simp add: add_request_def pq_defs sorted_insort)
    moreover have "\<forall>x\<in>set (up (add_request f e)). lb \<le> x"
      using Cons.prems(2,3) by (auto simp: add_request_def pq_defs set_insort_key)
    moreover have "lb \<le> current (add_request f e)"
      using Cons.prems(3) by (simp add: add_request_def)
    ultimately show ?thesis
      using Cons.IH[of "add_request f e" lb] Cons.prems(4) AddRequest by simp
  next
    case (UndoRemove v)
    have "sorted (up (fst (undo_elevator v e)))"
      using Cons.prems(1) by (simp add: undo_elevator_def list_remove_def heapify_def)
    moreover have "\<forall>x\<in>set (up (fst (undo_elevator v e))). lb \<le> x"
      using Cons.prems(2) set_up_undo_elevator[of v e] by auto
    ultimately show ?thesis
      using Cons.IH[of "fst (undo_elevator v e)" lb] Cons.prems(3,4) UndoRemove by simp
  next
    case ServeNext
    then have dir: "direction e = Up" and rest: "stays Up (snd (move_to_next e)) ops"
      using Cons.prems(4) by simp_all
    show ?thesis
    proof (cases "up e")
      case Nil
      then have "served_from_up (snd (move_to_next e)) ops = []"
        using dir rest move_up_empty no_serve_from_up by simp
      then show ?thesis using ServeNext Nil by (simp add: UpPQ_empty_def)
    next
      case (Cons x xs)
      note pop = move_up_pop[OF dir Cons]
      have "sorted (served_from_up (snd (move_to_next e)) ops) \<and>
            (\<forall>y\<in>set (served_from_up (snd (move_to_next e)) ops). x \<le> y)"
        using Cons.IH[of "snd (move_to_next e)" x] pop rest Cons.prems(1) Cons by simp
      moreover have "lb \<le> x" using Cons.prems(2) Cons by simp
      ultimately show ?thesis using ServeNext Cons dir pop
        by (auto simp: UpPQ_empty_def)
    qed
  qed
qed

lemma served_down_bounded:
  "sorted (down e) \<Longrightarrow> \<forall>x\<in>set (down e). nb \<le> x \<Longrightarrow> nb \<le> - current e \<Longrightarrow>
   stays Down e ops \<Longrightarrow>
     sorted (map uminus (served_from_down e ops)) \<and>
     (\<forall>y\<in>set (map uminus (served_from_down e ops)). nb \<le> y)"
proof (induction ops arbitrary: e nb)
  case Nil
  then show ?case by simp
next
  case (Cons a ops)
  show ?case
  proof (cases a)
    case (AddRequest f)
    have "sorted (down (add_request f e))" using Cons.prems(1)
      by (simp add: add_request_def pq_defs sorted_insort)
    moreover have "\<forall>x\<in>set (down (add_request f e)). nb \<le> x"
      using Cons.prems(2,3) by (auto simp: add_request_def pq_defs set_insort_key)
    moreover have "nb \<le> - current (add_request f e)"
      using Cons.prems(3) by (simp add: add_request_def)
    ultimately show ?thesis
      using Cons.IH[of "add_request f e" nb] Cons.prems(4) AddRequest by simp
  next
    case (UndoRemove v)
    have "sorted (down (fst (undo_elevator v e)))"
      using Cons.prems(1) by (simp add: undo_elevator_def list_remove_def heapify_def)
    moreover have "\<forall>x\<in>set (down (fst (undo_elevator v e))). nb \<le> x"
      using Cons.prems(2) set_down_undo_elevator[of v e] by auto
    ultimately show ?thesis
      using Cons.IH[of "fst (undo_elevator v e)" nb] Cons.prems(3,4) UndoRemove by simp
  next
    case ServeNext
    then have dir: "direction e = Down" and rest: "stays Down (snd (move_to_next e)) ops"
      using Cons.prems(4) by simp_all
    show ?thesis
    proof (cases "down e")
      case Nil
      then have "served_from_down (snd (move_to_next e)) ops = []"
        using dir rest move_down_empty no_serve_from_down by simp
      then show ?thesis using ServeNext Nil by (simp add: DownPQ_empty_def)
    next
      case (Cons x xs)
      note pop = move_down_pop[OF dir Cons]
      have nxt: "served_from_down e (a # ops) = - x # served_from_down (snd (move_to_next e)) ops"
        using ServeNext Cons dir pop by (simp add: DownPQ_empty_def)
      have srt: "sorted xs" and ge: "\<forall>y\<in>set xs. x \<le> y"
        using Cons.prems(1) Cons by simp_all
      have cur: "x \<le> - current (snd (move_to_next e))" using pop by simp
      have ih: "sorted (map uminus (served_from_down (snd (move_to_next e)) ops)) \<and>
            (\<forall>y\<in>set (map uminus (served_from_down (snd (move_to_next e)) ops)). x \<le> y)"
        using pop srt ge cur rest by (intro Cons.IH) simp_all
      have "nb \<le> x" using Cons.prems(2) Cons by simp
      then show ?thesis using ih unfolding nxt by auto
    qed
  qed
qed

lemma served_up_sorted:
  "sorted (up e) \<Longrightarrow> stays Up e ops \<Longrightarrow> sorted (served_from_up e ops)"
proof (induction ops arbitrary: e)
  case Nil
  then show ?case by simp
next
  case (Cons a ops)
  show ?case
  proof (cases a)
    case (AddRequest f)
    have "sorted (up (add_request f e))" using Cons.prems(1)
      by (simp add: add_request_def pq_defs sorted_insort)
    then show ?thesis using Cons.IH[of "add_request f e"] Cons.prems(2) AddRequest by simp
  next
    case (UndoRemove v)
    have "sorted (up (fst (undo_elevator v e)))"
      using Cons.prems(1) by (simp add: undo_elevator_def list_remove_def heapify_def)
    then show ?thesis using Cons.IH[of "fst (undo_elevator v e)"] Cons.prems(2) UndoRemove by simp
  next
    case ServeNext
    then have dir: "direction e = Up" and rest: "stays Up (snd (move_to_next e)) ops"
      using Cons.prems(2) by simp_all
    show ?thesis
    proof (cases "up e")
      case Nil
      then have "served_from_up (snd (move_to_next e)) ops = []"
        using dir rest move_up_empty no_serve_from_up by simp
      then show ?thesis using ServeNext Nil by (simp add: UpPQ_empty_def)
    next
      case (Cons x xs)
      note pop = move_up_pop[OF dir Cons]
      have "sorted (served_from_up (snd (move_to_next e)) ops) \<and>
            (\<forall>y\<in>set (served_from_up (snd (move_to_next e)) ops). x \<le> y)"
        using served_up_bounded[of "snd (move_to_next e)" x ops] pop rest Cons.prems(1) Cons
        by simp
      then show ?thesis using ServeNext Cons dir pop by (auto simp: UpPQ_empty_def)
    qed
  qed
qed

lemma served_down_sorted:
  "sorted (down e) \<Longrightarrow> stays Down e ops \<Longrightarrow>
     sorted (map uminus (served_from_down e ops))"
proof (induction ops arbitrary: e)
  case Nil
  then show ?case by simp
next
  case (Cons a ops)
  show ?case
  proof (cases a)
    case (AddRequest f)
    have "sorted (down (add_request f e))" using Cons.prems(1)
      by (simp add: add_request_def pq_defs sorted_insort)
    then show ?thesis using Cons.IH[of "add_request f e"] Cons.prems(2) AddRequest by simp
  next
    case (UndoRemove v)
    have "sorted (down (fst (undo_elevator v e)))"
      using Cons.prems(1) by (simp add: undo_elevator_def list_remove_def heapify_def)
    then show ?thesis using Cons.IH[of "fst (undo_elevator v e)"] Cons.prems(2) UndoRemove by simp
  next
    case ServeNext
    then have dir: "direction e = Down" and rest: "stays Down (snd (move_to_next e)) ops"
      using Cons.prems(2) by simp_all
    show ?thesis
    proof (cases "down e")
      case Nil
      then have "served_from_down (snd (move_to_next e)) ops = []"
        using dir rest move_down_empty no_serve_from_down by simp
      then show ?thesis using ServeNext Nil by (simp add: DownPQ_empty_def)
    next
      case (Cons x xs)
      note pop = move_down_pop[OF dir Cons]
      have nxt: "served_from_down e (a # ops) = - x # served_from_down (snd (move_to_next e)) ops"
        using ServeNext Cons dir pop by (simp add: DownPQ_empty_def)
      have srt: "sorted xs" and ge: "\<forall>y\<in>set xs. x \<le> y"
        using Cons.prems(1) Cons by simp_all
      have cur: "x \<le> - current (snd (move_to_next e))" using pop by simp
      have "sorted (map uminus (served_from_down (snd (move_to_next e)) ops)) \<and>
            (\<forall>y\<in>set (map uminus (served_from_down (snd (move_to_next e)) ops)). x \<le> y)"
        using pop srt ge cur rest by (intro served_down_bounded) simp_all
      then show ?thesis unfolding nxt by auto
    qed
  qed
qed

lemma non_increasing_iff: "sorted_wrt (\<ge>) xs \<longleftrightarrow> sorted (map uminus (xs :: int list))"
  by (induction xs) auto

subsection \<open>A thousand and one requests for one floor\<close>

lemma crowd_insort: "insort (5::int) (replicate k 5) = replicate (Suc k) 5"
  by (cases k) simp_all

lemma crowd_assign:
  "assign_request_to_elevator 5 [(Elevator ''A'')\<lparr>up := replicate k 5\<rparr>, Elevator ''B''] = 0"
  by (simp add: assign_request_to_elevator_def suitable_def Elevator_def Let_def)

lemma crowd_add:
  "add_request 5 ((Elevator ''A'')\<lparr>up := replicate k 5\<rparr>) =
     (Elevator ''A'')\<lparr>up := replicate (Suc k) 5\<rparr>"
  by (simp add: add_request_def Elevator_def UpPQ_push_def heappush_def crowd_insort
      del: replicate.simps)

lemma crowd_step: "exec (Request 5) (crowded k) = crowded (Suc k)"
  by (simp add: crowded_def exec_def request_def crowd_assign crowd_add
        RequestQueue_push_def RequestQueue_pop_def Stack_push_def
        MIN_FLOOR_def MAX_FLOOR_def Let_def replicate_append_same del: replicate.simps)
    (simp add: Elevator_def)

lemma crowd_run: "run (replicate n (Request 5)) (crowded k) = crowded (n + k)"
  by (induction n arbitrary: k) (simp_all add: run_def crowd_step)

lemma crowd_init: "crowded 0 = init"
  by (simp add: crowded_def init_def Elevator_def)

lemma crowd_pending: "max_pending (crowded n) = n"
  by (simp add: crowded_def max_pending_def pending_count_def Elevator_def)

lemma crowd_reached: "run (replicate 1001 (Request 5)) init = crowded 1001"
proof -
  have "run (replicate 1001 (Request 5)) (crowded 0) = crowded (1001 + 0)"
    by (rule crowd_run)
  then show ?thesis unfolding crowd_init add_0_right .
qed

lemma crowd_rounds: "fst (auto_loop (crowded 1001) 0) = 1001"
proof -
  have "fst (auto_loop (crowded 1001) 0) = min (0 + max_pending (crowded 1001)) 1001"
    by (rule auto_loop_rounds) simp
  then show ?thesis by (simp add: crowd_pending)
qed

lemma busy_state:
  "run [Request 5, Request 7, Step, Request 3, Request 7] init =
     \<lparr>elevators =
        [\<lparr>name = ''A'', current = 5, direction = Up, up = [7], down = [], history = [5]\<rparr>,
         \<lparr>name = ''B'', current = 0, direction = Idle, up = [3, 7], down = [], history = []\<rparr>],
      req_q = [],
      undo_stack = [(''request'', 5), (''request'', 7), (''request'', 3), (''request'', 7)]\<rparr>"
  by (simp add: eval_defs)

lemma moving_state:
  "run [Request 5, Request 7, Step] init =
     \<lparr>elevators =
        [\<lparr>name = ''A'', current = 5, direction = Up, up = [7], down = [], history = [5]\<rparr>,
         \<lparr>name = ''B'', current = 0, direction = Idle, up = [], down = [], history = []\<rparr>],
      req_q = [],
      undo_stack = [(''request'', 5), (''request'', 7)]\<rparr>"
  by (simp add: eval_defs)

subsection \<open>A request and the undo that follows\<close>









section \<open>The claims\<close>

text \<open>
  C1. An undo of a request for floor \<open>F\<close> should stop at the first container it removes
  \<open>F\<close> from, so that at most one pending entry goes. The loop over the elevators has no
  exit after a successful removal: after \<^verbatim>\<open>5, 7, step, 3, 7\<close> floor 7 is pending in the up
  queue of both elevators, and one undo takes it out of both.
\<close>

theorem undo_removes_from_both_cars:
  "map up (elevators (run [Request 5, Request 7, Step, Request 3, Request 7] init)) =
     [[7], [3, 7]] \<and>
   undo (run [Request 5, Request 7, Step, Request 3, Request 7] init) =
     ([UndoRemoved 7],
      \<lparr>elevators =
        [\<lparr>name = ''A'', current = 5, direction = Up, up = [], down = [], history = [5]\<rparr>,
         \<lparr>name = ''B'', current = 0, direction = Idle, up = [3], down = [], history = []\<rparr>],
      req_q = [],
      undo_stack = [(''request'', 5), (''request'', 7), (''request'', 3)]\<rparr>)"
  by (simp add: busy_state) (simp add: eval_defs)




text \<open>
  C3, as stated, fails on the bound: the loop leaves once the count of rounds is above 1000,
  which is after round 1001. With 1001 requests for floor 5 pending, the auto command runs
  1001 rounds.
\<close>

theorem auto_cap_counterexample:
  "fst (snd (auto (run (replicate 1001 (Request 5)) init))) = 1001 \<and>
   \<not> fst (snd (auto (run (replicate 1001 (Request 5)) init))) \<le> 1000"
  unfolding crowd_reached auto_rounds crowd_rounds by simp

text \<open>
  C3, amended. The auto command always returns (the loop is a total function, its measure
  being the rounds left below 1001). It runs as many rounds as the busiest elevator has
  pending targets, and at most 1001: it takes the safety stop exactly when it has run 1001
  rounds, and reports it; if an elevator still has a pending target afterwards, the safety stop
  was taken; with nothing pending it runs no round, reports completion and leaves the state
  as it was.
\<close>

theorem auto_terminates_within_cap:
  "fst (snd (auto s)) = min (max_pending s) 1001 \<and>
   fst (snd (auto s)) \<le> 1001 \<and>
   (fst (auto s) = [StoppingAuto, AutoFinished] \<longleftrightarrow> fst (snd (auto s)) = 1001) \<and>
   (fst (auto s) = [AutoFinished] \<longleftrightarrow> fst (snd (auto s)) \<le> 1000) \<and>
   (list_ex has_pending (elevators (snd (snd (auto s)))) \<longrightarrow>
      fst (auto s) = [StoppingAuto, AutoFinished]) \<and>
   (\<not> list_ex has_pending (elevators s) \<longrightarrow> auto s = ([AutoFinished], 0, s))"
proof -
  have n: "fst (auto_loop s 0) = min (max_pending s) 1001"
    using auto_loop_rounds[of 0 s] by simp
  have st: "fst (snd (auto_loop s 0)) \<longleftrightarrow> fst (auto_loop s 0) = 1001"
    using auto_loop_stopped[of 0 s] by simp
  have dn: "\<not> fst (snd (auto_loop s 0)) \<Longrightarrow>
      \<not> list_ex has_pending (elevators (snd (snd (auto_loop s 0))))"
    by (rule auto_loop_done)
  have z: "\<not> list_ex has_pending (elevators s) \<Longrightarrow> auto s = ([AutoFinished], 0, s)"
    by (simp add: auto_def auto_loop_idle)
  show ?thesis
    using n st dn z unfolding auto_rounds auto_report auto_state by auto
qed

theorem auto_terminates_within_cap_witness:
  "max_pending (run [Request 5, Request 7, Request (- 3)] init) = 3 \<and>
   fst (snd (auto (run [Request 5, Request 7, Request (- 3)] init))) = 3 \<and>
   fst (auto (run [Request 5, Request 7, Request (- 3)] init)) = [AutoFinished] \<and>
   \<not> list_ex has_pending (elevators init) \<and> auto init = ([AutoFinished], 0, init)"
proof -
  have m: "max_pending (run [Request 5, Request 7, Request (- 3)] init) = 3"
    by (simp add: eval_defs max_pending_def pending_count_def)
  have i: "\<not> list_ex has_pending (elevators init)"
    by (simp add: init_def Elevator_def has_pending_def pq_defs)
  show ?thesis
    using auto_terminates_within_cap[of "run [Request 5, Request 7, Request (- 3)] init"]
      auto_terminates_within_cap[of init] m i
    by simp
qed

text \<open>
  C4. After a step, in whatever state it was taken, an elevator's direction is idle exactly
  when both of its queues are empty. This holds for every state, so in particular after each
  step of any sequence of steps and requests from the start.
\<close>

theorem step_idle_iff_empty:
  "\<forall>e \<in> set (elevators (snd (step s))).
     direction e = Idle \<longleftrightarrow> UpPQ_empty (up e) \<and> DownPQ_empty (down e)"
  by (auto simp: step_def Let_def move_to_next_idle_iff)

theorem step_idle_iff_empty_witness:
  "map direction (elevators (snd (step (run [Request 5, Request 7] init)))) = [Up, Idle] \<and>
   map up (elevators (snd (step (run [Request 5, Request 7] init)))) = [[7], []] \<and>
   map down (elevators (snd (step (run [Request 5, Request 7] init)))) = [[], []] \<and>
   list_all (\<lambda>e. (direction e = Idle) = (UpPQ_empty (up e) \<and> DownPQ_empty (down e)))
     (elevators (snd (step (run [Request 5, Request 7] init))))"
  using step_idle_iff_empty[of "run [Request 5, Request 7] init"]
  by (simp add: eval_defs)

text \<open>
  C5. An idle elevator with both queues non-empty turns to the queue whose next floor is
  nearer to its current floor, upwards when the two are equally far, and serves that floor;
  with one queue non-empty it turns to that queue; with both empty the call changes nothing
  and serves nothing.
\<close>

theorem idle_choice:
  "direction e = Idle \<Longrightarrow>
   (\<forall>u d. UpPQ_peek (up e) = Some u \<and> DownPQ_peek (down e) = Some d \<longrightarrow>
      (\<bar>u - current e\<bar> \<le> \<bar>d - current e\<bar> \<longrightarrow>
         choose_direction e = Some (e\<lparr>direction := Up\<rparr>) \<and> fst (move_to_next e) = Some u) \<and>
      (\<bar>d - current e\<bar> < \<bar>u - current e\<bar> \<longrightarrow>
         choose_direction e = Some (e\<lparr>direction := Down\<rparr>) \<and> fst (move_to_next e) = Some d)) \<and>
   (\<forall>u. UpPQ_peek (up e) = Some u \<and> DownPQ_peek (down e) = None \<longrightarrow>
      choose_direction e = Some (e\<lparr>direction := Up\<rparr>) \<and> fst (move_to_next e) = Some u) \<and>
   (\<forall>d. UpPQ_peek (up e) = None \<and> DownPQ_peek (down e) = Some d \<longrightarrow>
      choose_direction e = Some (e\<lparr>direction := Down\<rparr>) \<and> fst (move_to_next e) = Some d) \<and>
   (UpPQ_peek (up e) = None \<and> DownPQ_peek (down e) = None \<longrightarrow>
      choose_direction e = None \<and> move_to_next e = (None, e))"
  by (auto simp: move_defs pq_defs split: option.splits if_splits)

theorem idle_choice_witness:
  "direction \<lparr>name = ''A'', current = 0, direction = Idle, up = [5], down = [3],
      history = []\<rparr> = Idle \<and>
   UpPQ_peek [5] = Some 5 \<and> DownPQ_peek [3] = Some (- 3) \<and>
   \<bar>- 3 - 0\<bar> < \<bar>5 - (0::int)\<bar> \<and>
   fst (move_to_next \<lparr>name = ''A'', current = 0, direction = Idle, up = [5], down = [3],
      history = []\<rparr>) = Some (- 3) \<and>
   fst (move_to_next \<lparr>name = ''A'', current = 1, direction = Idle, up = [5], down = [3],
      history = []\<rparr>) = Some 5"
  using idle_choice[of "\<lparr>name = ''A'', current = 0, direction = Idle, up = [5], down = [3],
      history = []\<rparr>"]
    idle_choice[of "\<lparr>name = ''A'', current = 1, direction = Idle, up = [5], down = [3],
      history = []\<rparr>"]
  by (simp add: pq_defs)

text \<open>
  C6. A request for the floor the elevator stands on is appended to its history and changes
  nothing else, so neither queue gains the floor. Any other request is pushed on the up queue
  when the floor is above the current one and on the down queue when it is below, and changes
  nothing else.
\<close>

theorem add_request_cases:
  "(floor = current e \<longrightarrow>
      add_request floor e = e\<lparr>history := history e @ [floor]\<rparr> \<and>
      up (add_request floor e) = up e \<and> down (add_request floor e) = down e) \<and>
   (floor > current e \<longrightarrow>
      add_request floor e = e\<lparr>up := UpPQ_push (up e) floor\<rparr> \<and>
      mset (up (add_request floor e)) = add_mset floor (mset (up e))) \<and>
   (floor < current e \<longrightarrow>
      add_request floor e = e\<lparr>down := DownPQ_push (down e) floor\<rparr> \<and>
      mset (DownPQ_to_list (down (add_request floor e))) =
        add_mset floor (mset (DownPQ_to_list (down e))))"
  by (auto simp: add_request_def pq_defs DownPQ_to_list_def)

theorem add_request_cases_witness:
  "add_request 0 (Elevator ''A'') = (Elevator ''A'')\<lparr>history := [0]\<rparr> \<and>
   add_request 5 (Elevator ''A'') = (Elevator ''A'')\<lparr>up := [5]\<rparr> \<and>
   add_request (- 3) (Elevator ''A'') = (Elevator ''A'')\<lparr>down := [3]\<rparr> \<and>
   current (Elevator ''A'') = 0"
  using add_request_cases[of 0 "Elevator ''A''"] add_request_cases[of 5 "Elevator ''A''"]
    add_request_cases[of "- 3" "Elevator ''A''"]
  by (simp add: Elevator_def pq_defs)

text \<open>
  C7. The dispatcher's choice is the one the specification describes: the one suitable
  elevator if exactly one is suitable, else the one idle elevator if exactly one is idle, else
  the nearer elevator, the first on a tie. The choice is a function of the floor and the two
  elevators, and returns an index without changing either.
\<close>

theorem assign_follows_spec:
  "assign_request_to_elevator floor es = select_spec floor (es ! 0) (es ! 1)"
  by (auto simp: assign_request_to_elevator_def select_spec_def suitable_def suitable_spec_def
      Let_def)

theorem assign_follows_spec_witness:
  "assign_request_to_elevator 3 (elevators (run [Request 5, Request 7, Step] init)) = 1 \<and>
   select_spec 3 (elevators (run [Request 5, Request 7, Step] init) ! 0)
     (elevators (run [Request 5, Request 7, Step] init) ! 1) = 1 \<and>
   \<not> suitable_spec 3 (elevators (run [Request 5, Request 7, Step] init) ! 0) \<and>
   suitable_spec 3 (elevators (run [Request 5, Request 7, Step] init) ! 1)"
  using assign_follows_spec[of 3 "elevators (run [Request 5, Request 7, Step] init)"]
  by (simp add: moving_state select_spec_def suitable_spec_def)

text \<open>
  C8. A request for a floor below \<open>MIN_FLOOR\<close> (\<open>-10\<close>) or above \<open>MAX_FLOOR\<close> (\<open>30\<close>)
  is answered with the range error, and the state after it is the state before it.
\<close>

theorem request_out_of_range:
  "floor < MIN_FLOOR \<or> floor > MAX_FLOOR \<Longrightarrow> request floor s = ([RangeError], s)"
  by (simp add: request_def)

theorem request_out_of_range_witness:
  "(31 < MIN_FLOOR \<or> 31 > MAX_FLOOR) \<and> request 31 init = ([RangeError], init) \<and>
   (- 11 < MIN_FLOOR \<or> - 11 > MAX_FLOOR) \<and> request (- 11) init = ([RangeError], init) \<and>
   MIN_FLOOR = - 10 \<and> MAX_FLOOR = 30"
  using request_out_of_range[of 31 init] request_out_of_range[of "- 11" init]
  by (simp add: MIN_FLOOR_def MAX_FLOOR_def)

text \<open>
  C9. Let requests, undo removals and services happen to one elevator whose heaps are in
  heap order. If the elevator's direction is up each time it is about to serve, the floors it
  serves out of the up queue never decrease; if its direction is down each time, the floors
  it serves out of the down queue never increase.
\<close>

theorem sweep_order:
  "(sorted (up e) \<and> stays Up e ops \<longrightarrow> sorted (served_from_up e ops)) \<and>
   (sorted (down e) \<and> stays Down e ops \<longrightarrow> sorted_wrt (\<ge>) (served_from_down e ops))"
  by (simp add: served_up_sorted served_down_sorted non_increasing_iff)

theorem sweep_order_witness:
  "stays Up \<lparr>name = ''A'', current = 0, direction = Up, up = [5, 8], down = [], history = []\<rparr>
     [ServeNext, AddRequest 6, AddRequest 2, ServeNext, UndoRemove 2, ServeNext] \<and>
   served_from_up
     \<lparr>name = ''A'', current = 0, direction = Up, up = [5, 8], down = [], history = []\<rparr>
     [ServeNext, AddRequest 6, AddRequest 2, ServeNext, UndoRemove 2, ServeNext] = [5, 6, 8] \<and>
   stays Down \<lparr>name = ''B'', current = 9, direction = Down, up = [], down = [- 8, - 5],
     history = []\<rparr> [ServeNext, AddRequest 7, ServeNext, ServeNext] \<and>
   served_from_down \<lparr>name = ''B'', current = 9, direction = Down, up = [], down = [- 8, - 5],
     history = []\<rparr> [ServeNext, AddRequest 7, ServeNext, ServeNext] = [8, 7, 5]"
  using sweep_order[of "\<lparr>name = ''A'', current = 0, direction = Up, up = [5, 8], down = [],
      history = []\<rparr>" "[ServeNext, AddRequest 6, AddRequest 2, ServeNext, UndoRemove 2, ServeNext]"]
    sweep_order[of "\<lparr>name = ''B'', current = 9, direction = Down, up = [], down = [- 8, - 5],
      history = []\<rparr>" "[ServeNext, AddRequest 7, ServeNext, ServeNext]"]
  by (simp add: eval_defs)

text \<open>
  C10. From the start, whatever commands are given, every current floor and every floor held
  in an up queue, a down queue, a history, the incoming queue or the undo stack lies between
  \<open>MIN_FLOOR\<close> and \<open>MAX_FLOOR\<close>: a request outside the bounds is rejected by the command
  itself.
\<close>

theorem floors_stay_in_range: "floors_in_range (run cs init)"
  by (induction cs rule: rev_induct) (simp_all add: run_snoc in_range_exec in_range_init run_def)

theorem floors_stay_in_range_witness:
  "floors_in_range (run [Request 5, Request 31, Request (- 3), Step] init) \<and>
   map current (elevators (run [Request 5, Request 31, Request (- 3), Step] init)) = [- 3, 0] \<and>
   map up (elevators (run [Request 5, Request 31, Request (- 3), Step] init)) = [[5], []] \<and>
   in_range (- 3) \<and> in_range 5 \<and> \<not> in_range 31"
  using floors_stay_in_range[of "[Request 5, Request 31, Request (- 3), Step]"]
  by (simp add: eval_defs in_range_def)

end
